theory Spec2Isabelle
  imports Main
begin

text \<open>
  A model of \<^verbatim>\<open>scripts/validate_bitcoin_protocol.py\<close>: the registry
  \<^verbatim>\<open>BIP_STANDARDS\<close>, the function \<^verbatim>\<open>validate_protocol\<close> and the
  command-line wrapper \<^verbatim>\<open>main\<close>, together with the part of Python's
  \<^verbatim>\<open>re\<close> and \<^verbatim>\<open>str\<close> that they call.
\<close>

section \<open>Python values used by the validator\<close>

text \<open>
  A Python \<^verbatim>\<open>str\<close> is a \<^typ>\<open>string\<close>: one \<^typ>\<open>char\<close> per code point,
  read as its Latin-1 value, so the model speaks about texts whose code points are below 256.
  The two exceptions that the validator could meet are a missing dictionary key and a
  pattern that does not compile. A dictionary is an association list in insertion order;
  the registry's literals have no repeated key, so \<open>items\<close> is the list itself.
\<close>

datatype py_error = KeyError string | ReError string

type_synonym 'v dict = "(string \<times> 'v) list"

definition getitem :: "'v dict \<Rightarrow> string \<Rightarrow> py_error + 'v" where
  "getitem d k = (case map_of d k of None \<Rightarrow> Inl (KeyError k) | Some v \<Rightarrow> Inr v)"

definition items :: "'v dict \<Rightarrow> (string \<times> 'v) list" where
  "items d = d"

text \<open>The backslash, which a string literal of the logic cannot contain.\<close>

definition bs :: char where
  "bs = CHR 0x5C"

text \<open>
  \<^verbatim>\<open>str.lower\<close> on code points below 256: the upper-case letters are A to Z and
  0xC0 to 0xDE without the multiplication sign 0xD7, and each is 32 below its lower-case
  partner. \<open>upper_chr\<close> is the inverse on those partners; the matcher uses it for
  character sets under \<^verbatim>\<open>re.IGNORECASE\<close>.
\<close>

definition ord :: "char \<Rightarrow> nat" where
  "ord c = of_char c"

definition is_upper_chr :: "char \<Rightarrow> bool" where
  "is_upper_chr c = ((65 \<le> ord c \<and> ord c \<le> 90) \<or> (192 \<le> ord c \<and> ord c \<le> 222 \<and> ord c \<noteq> 215))"

definition is_lower_chr :: "char \<Rightarrow> bool" where
  "is_lower_chr c = ((97 \<le> ord c \<and> ord c \<le> 122) \<or> (224 \<le> ord c \<and> ord c \<le> 254 \<and> ord c \<noteq> 247))"

definition lower_chr :: "char \<Rightarrow> char" where
  "lower_chr c = (if is_upper_chr c then char_of (ord c + 32) else c)"

definition upper_chr :: "char \<Rightarrow> char" where
  "upper_chr c = (if is_lower_chr c then char_of (ord c - 32) else c)"

definition lower :: "string \<Rightarrow> string" where
  "lower s = map lower_chr s"

text \<open>\<^verbatim>\<open>sub in s\<close> on strings: \<open>contains s sub\<close>.\<close>

fun startswith :: "string \<Rightarrow> string \<Rightarrow> bool" where
  "startswith s [] = True"
| "startswith [] (p # ps) = False"
| "startswith (c # cs) (p # ps) = (if c = p then startswith cs ps else False)"

fun contains :: "string \<Rightarrow> string \<Rightarrow> bool" where
  "contains [] sub = (sub = [])"
| "contains (c # cs) sub = (if startswith (c # cs) sub then True else contains cs sub)"

section \<open>Regular expressions\<close>

text \<open>
  The registry uses literals, escaped punctuation, character sets with ranges and negation,
  the repetition \<^verbatim>\<open>+\<close> and the alternation \<^verbatim>\<open>|\<close>. A compiled pattern
  is a list of alternatives, each a sequence of items, as \<^verbatim>\<open>sre_parse\<close> represents
  such patterns. \<open>re_compile\<close> parses exactly this fragment and answers
  \<^verbatim>\<open>re.error\<close> on anything else.
\<close>

datatype set_item = LITERAL char | RANGE char char

datatype atom = Literal char | In bool "set_item list"

datatype item = One atom | MaxRepeat atom

type_synonym regex = "item list list"

datatype token = TAtom atom | TPlus | TBar

definition is_special :: "char \<Rightarrow> bool" where
  "is_special c = (c \<in> set ''.^$*?{}[]()'')"

definition is_alnum :: "char \<Rightarrow> bool" where
  "is_alnum c = ((48 \<le> ord c \<and> ord c \<le> 57) \<or> (65 \<le> ord c \<and> ord c \<le> 90)
     \<or> (97 \<le> ord c \<and> ord c \<le> 122) \<or> 128 \<le> ord c)"

definition tcons :: "token \<Rightarrow> token list option \<Rightarrow> token list option" where
  "tcons t r = map_option (Cons t) r"

fun tokens :: "string \<Rightarrow> token list option"
  and class_items :: "bool \<Rightarrow> set_item list \<Rightarrow> string \<Rightarrow> token list option" where
  "tokens [] = Some []"
| "tokens (c # cs) =
     (if c = bs then
        (case cs of
           [] \<Rightarrow> None
         | e # es \<Rightarrow> if is_alnum e then None else tcons (TAtom (Literal e)) (tokens es))
      else if c = CHR ''['' then
        (case cs of
           [] \<Rightarrow> None
         | e # es \<Rightarrow> if e = CHR ''^'' then class_items True [] es else class_items False [] cs)
      else if c = CHR ''+'' then tcons TPlus (tokens cs)
      else if c = CHR ''|'' then tcons TBar (tokens cs)
      else if is_special c then None
      else tcons (TAtom (Literal c)) (tokens cs))"
| "class_items neg acc [] = None"
| "class_items neg acc (c # d # hi # es) =
     (if c = CHR '']'' \<and> acc \<noteq> [] then tcons (TAtom (In neg (rev acc))) (tokens (d # hi # es))
      else if c = bs \<or> c = CHR ''['' then None
      else if d = CHR ''-'' \<and> hi \<noteq> CHR '']'' then
        (if hi = bs \<or> ord hi < ord c then None else class_items neg (RANGE c hi # acc) es)
      else class_items neg (LITERAL c # acc) (d # hi # es))"
| "class_items neg acc (c # cs) =
     (if c = CHR '']'' \<and> acc \<noteq> [] then tcons (TAtom (In neg (rev acc))) (tokens cs)
      else if c = bs \<or> c = CHR ''['' then None
      else class_items neg (LITERAL c # acc) cs)"

fun split_bar :: "token list \<Rightarrow> token list list" where
  "split_bar [] = [[]]"
| "split_bar (TBar # ts) = [] # split_bar ts"
| "split_bar (t # ts) = (case split_bar ts of [] \<Rightarrow> [[t]] | b # rest \<Rightarrow> (t # b) # rest)"

fun pieces :: "token list \<Rightarrow> item list option" where
  "pieces [] = Some []"
| "pieces (TAtom a # TPlus # TPlus # ts) = None"
| "pieces (TAtom a # TPlus # ts) = map_option (Cons (MaxRepeat a)) (pieces ts)"
| "pieces (TAtom a # ts) = map_option (Cons (One a)) (pieces ts)"
| "pieces (t # ts) = None"

definition re_compile :: "string \<Rightarrow> py_error + regex" where
  "re_compile pattern =
     (case tokens pattern of
        None \<Rightarrow> Inl (ReError pattern)
      | Some ts \<Rightarrow>
          (case those (map pieces (split_bar ts)) of
             None \<Rightarrow> Inl (ReError pattern)
           | Some alts \<Rightarrow> Inr alts))"

text \<open>
  Matching one character. With \<open>ic\<close> (the flag \<^verbatim>\<open>re.IGNORECASE\<close>) a literal
  is compared after lower-casing both sides, and a character set is tested on the
  character and on its lower-case and upper-case partners; negation is applied last.
\<close>

fun in_item :: "set_item \<Rightarrow> char \<Rightarrow> bool" where
  "in_item (LITERAL c) d = (d = c)"
| "in_item (RANGE lo hi) d = (ord lo \<le> ord d \<and> ord d \<le> ord hi)"

fun atom_matches :: "bool \<Rightarrow> atom \<Rightarrow> char \<Rightarrow> bool" where
  "atom_matches ic (Literal c) d = (if ic then lower_chr d = lower_chr c else d = c)"
| "atom_matches ic (In neg its) d =
     (list_ex (\<lambda>i. in_item i d \<or> (ic \<and> (in_item i (lower_chr d) \<or> in_item i (upper_chr d)))) its
        \<noteq> neg)"

text \<open>
  The backtracking matcher: \<open>match_seq\<close> tries a sequence at the start of the text,
  a repetition taking as many characters as it can before giving one back;
  \<open>search\<close> tries every start position from left to right. \<open>re_search\<close> is
  \<^verbatim>\<open>re.search(pattern, s, flags)\<close> reduced to the truth value of its result, a
  match object being true and \<^verbatim>\<open>None\<close> false, which is all the validator uses.
\<close>

fun match_seq :: "bool \<Rightarrow> item list \<Rightarrow> string \<Rightarrow> bool" where
  "match_seq ic [] s = True"
| "match_seq ic (i # is) [] = False"
| "match_seq ic (One a # is) (d # t) = (if atom_matches ic a d then match_seq ic is t else False)"
| "match_seq ic (MaxRepeat a # is) (d # t) =
     (if atom_matches ic a d
      then (if match_seq ic (MaxRepeat a # is) t then True else match_seq ic is t)
      else False)"

definition match_here :: "bool \<Rightarrow> regex \<Rightarrow> string \<Rightarrow> bool" where
  "match_here ic alts s = list_ex (\<lambda>its. match_seq ic its s) alts"

fun search :: "bool \<Rightarrow> regex \<Rightarrow> string \<Rightarrow> bool" where
  "search ic alts [] = match_here ic alts []"
| "search ic alts (c # cs) = (if match_here ic alts (c # cs) then True else search ic alts cs)"

definition re_search :: "string \<Rightarrow> string \<Rightarrow> bool \<Rightarrow> py_error + bool" where
  "re_search pattern s ic =
     (case re_compile pattern of Inl e \<Rightarrow> Inl e | Inr r \<Rightarrow> Inr (search ic r s))"

section \<open>The validator\<close>

text \<open>
  The registry as the source writes it. The first pattern is
  \<^verbatim>\<open>tr\([A-Za-z0-9]+,\{[^}]+\}\)\<close>.
\<close>

definition BIP_STANDARDS :: "string dict dict" where
  "BIP_STANDARDS =
     [(''BIP-341'',
         [(''name'', ''Taproot''),
          (''validation_regex'',
             ''tr'' @ bs # ''([A-Za-z0-9]+,'' @ bs # ''{[^}]+'' @ bs # ''}'' @ bs # '')''),
          (''description'', ''Taproot output spending conditions'')]),
      (''BIP-342'',
         [(''name'', ''Tapscript''),
          (''validation_regex'', ''OP_CHECKSIG|OP_CHECKSIGVERIFY''),
          (''description'', ''Tapscript validation rules'')]),
      (''BIP-174'',
         [(''name'', ''PSBT''),
          (''validation_regex'', ''psbt:[0-9a-f]+''),
          (''description'', ''Partially Signed Bitcoin Transaction'')]),
      (''BIP-370'',
         [(''name'', ''PSBT Version 2''),
          (''validation_regex'', ''psbt:v2:[0-9a-f]+''),
          (''description'', ''PSBT Version 2 format'')])]"

text \<open>
  The dictionaries that \<^verbatim>\<open>validate_protocol\<close> builds have fixed keys and are
  records. An entry of \<^verbatim>\<open>details\<close> is a per-standard detail or the dictionary
  with the single key \<^verbatim>\<open>error\<close>; the key \<^verbatim>\<open>warning\<close> of the
  report exists only once it has been assigned.
\<close>

record validation_detail =
  standard :: string
  name :: string
  compliant :: bool
  description :: string
  warnings :: "string list"

datatype detail_entry = Detail validation_detail | Error string

record results =
  validation_performed :: bool
  timestamp :: string
  standards_checked :: "string list"
  compliant :: bool
  details :: "detail_entry list"
  warning :: "string option"

text \<open>\<^verbatim>\<open>detail.get("warnings", [])\<close>\<close>

fun get_warnings :: "detail_entry \<Rightarrow> string list" where
  "get_warnings (Detail d) = warnings d"
| "get_warnings (Error e) = []"

text \<open>
  The body of the loop over \<^verbatim>\<open>BIP_STANDARDS.items()\<close>, in the order of the
  source: the search for the standard's pattern, the two standard-specific checks on a
  fresh detail, and the two appends.
\<close>

definition is_applicable :: "string dict \<Rightarrow> string \<Rightarrow> py_error + bool" where
  "is_applicable bip_info input_text =
     (case getitem bip_info ''validation_regex'' of
        Inl e \<Rightarrow> Inl e
      | Inr pattern \<Rightarrow> re_search pattern input_text True)"

definition silent_leaf_check :: "string \<Rightarrow> string \<Rightarrow> validation_detail \<Rightarrow> validation_detail" where
  "silent_leaf_check bip_id input_text d =
     (if bip_id = ''BIP-341'' \<and> \<not> contains input_text ''SILENT_LEAF''
      then d\<lparr>warnings := warnings d @
        [''Missing recommended SILENT_LEAF pattern for privacy-preserving Taproot scripts'']\<rparr>
      else d)"

definition unsigned_tx_check :: "string \<Rightarrow> string \<Rightarrow> validation_detail \<Rightarrow> validation_detail" where
  "unsigned_tx_check bip_id input_text d =
     (if bip_id = ''BIP-174'' \<and> \<not> contains (lower input_text) ''unsigned_tx''
      then d\<lparr>warnings := warnings d @ [''PSBT should include unsigned_tx field'']\<rparr>
      else d)"

definition validation_detail_for :: "string \<Rightarrow> string \<Rightarrow> string \<Rightarrow> string \<Rightarrow> validation_detail" where
  "validation_detail_for bip_id nm descr input_text =
     unsigned_tx_check bip_id input_text
       (silent_leaf_check bip_id input_text
          \<lparr>standard = bip_id, name = nm, validation_detail.compliant = True,
           description = descr, warnings = []\<rparr>)"

definition check_standard :: "string \<Rightarrow> string \<times> string dict \<Rightarrow> results \<Rightarrow> py_error + results" where
  "check_standard input_text entry res =
     (case is_applicable (snd entry) input_text of
        Inl e \<Rightarrow> Inl e
      | Inr applicable \<Rightarrow>
          if applicable then
            (case getitem (snd entry) ''name'' of
               Inl e \<Rightarrow> Inl e
             | Inr nm \<Rightarrow>
                 (case getitem (snd entry) ''description'' of
                    Inl e \<Rightarrow> Inl e
                  | Inr descr \<Rightarrow>
                      Inr (res\<lparr>standards_checked := standards_checked res @ [fst entry],
                                details := details res @
                                  [Detail (validation_detail_for (fst entry) nm descr input_text)]\<rparr>)))
          else Inr res)"

fun for_each_standard :: "(string \<times> string dict) list \<Rightarrow> string \<Rightarrow> results \<Rightarrow> py_error + results" where
  "for_each_standard [] input_text res = Inr res"
| "for_each_standard (entry # rest) input_text res =
     (case check_standard input_text entry res of
        Inl e \<Rightarrow> Inl e
      | Inr res' \<Rightarrow> for_each_standard rest input_text res')"

text \<open>
  The branch after the loop; a string is true when it is not empty, so \<^verbatim>\<open>any\<close>
  over the warnings asks for a non-empty one.
\<close>

definition overall_compliance :: "results \<Rightarrow> results" where
  "overall_compliance res =
     (if standards_checked res = [] then
        res\<lparr>compliant := False,
            details := details res @
              [Error ''No recognized Bitcoin protocol standards found in input'']\<rparr>
      else if list_ex (\<lambda>w. w \<noteq> []) (concat (map get_warnings (details res))) then
        res\<lparr>warning := Some ''Protocol validation passed with warnings''\<rparr>
      else res)"

definition validate_protocol :: "string \<Rightarrow> py_error + results" where
  "validate_protocol input_text =
     (case for_each_standard (items BIP_STANDARDS) input_text
             \<lparr>validation_performed = True, timestamp = ''2025-03-10T08:45:00Z'',
              standards_checked = [], compliant = True, details = [], warning = None\<rparr> of
        Inl e \<Rightarrow> Inl e
      | Inr res \<Rightarrow> Inr (overall_compliance res))"

text \<open>
  \<^verbatim>\<open>main\<close> returns what it printed and the exit status of the process. The
  argument parser and \<^verbatim>\<open>json.dumps\<close> belong to the standard library and are
  parameters: \<open>parse_args\<close> either exits by itself, with its own output and status, or
  delivers the arguments. An exception escaping \<^verbatim>\<open>validate_protocol\<close> would end
  the process with status 1 and nothing printed.
\<close>

record args =
  input :: string

definition main :: "(string list \<Rightarrow> (string list \<times> nat) + args) \<Rightarrow> (results \<Rightarrow> string) \<Rightarrow>
    string list \<Rightarrow> string list \<times> nat" where
  "main parse_args json_dumps argv =
     (case parse_args argv of
        Inl exit \<Rightarrow> exit
      | Inr a \<Rightarrow>
          (case validate_protocol (input a) of
             Inl e \<Rightarrow> ([], 1)
           | Inr res \<Rightarrow> ([json_dumps res], if \<not> compliant res then 1 else 0)))"

section \<open>Calls and the interpreter state\<close>

text \<open>
  What outlives a call of \<^verbatim>\<open>validate_protocol\<close>: the module's global name
  \<^verbatim>\<open>BIP_STANDARDS\<close>, bound to a dictionary that any code could update, and the
  dictionary objects that calls have created, each reached through a reference. A
  \<^verbatim>\<open>results\<close> dictionary and the lists it holds are one object, since the lists
  are created by the same literal and reachable through it only.

  \<open>new_results\<close> is the dictionary literal of lines 44 to 50: it creates an object at an
  unused reference. The loop reads the registry from the global name and updates the object
  in place, one \<open>check_standard\<close> per entry; an exception leaves the loop with the
  state reached so far. The branch after the loop updates the same object, and the
  call returns its reference.
\<close>

record interpreter =
  global_BIP_STANDARDS :: "string dict dict"
  heap :: "nat \<Rightarrow> results"
  next_ref :: nat

definition new_results :: "interpreter \<Rightarrow> nat \<times> interpreter" where
  "new_results s =
     (next_ref s,
      s\<lparr>heap := (heap s)(next_ref s :=
             \<lparr>validation_performed = True, timestamp = ''2025-03-10T08:45:00Z'',
              standards_checked = [], compliant = True, details = [], warning = None\<rparr>),
        next_ref := Suc (next_ref s)\<rparr>)"

fun for_each_standard_at ::
  "(string \<times> string dict) list \<Rightarrow> string \<Rightarrow> nat \<Rightarrow> interpreter \<Rightarrow> (py_error + unit) \<times> interpreter" where
  "for_each_standard_at [] input_text ref s = (Inr (), s)"
| "for_each_standard_at (entry # rest) input_text ref s =
     (case check_standard input_text entry (heap s ref) of
        Inl e \<Rightarrow> (Inl e, s)
      | Inr res' \<Rightarrow> for_each_standard_at rest input_text ref (s\<lparr>heap := (heap s)(ref := res')\<rparr>))"

definition validate_protocol_call :: "string \<Rightarrow> interpreter \<Rightarrow> (py_error + nat) \<times> interpreter" where
  "validate_protocol_call input_text s =
     (case new_results s of
        (ref, s1) \<Rightarrow>
          (case for_each_standard_at (items (global_BIP_STANDARDS s1)) input_text ref s1 of
             (Inl e, s2) \<Rightarrow> (Inl e, s2)
           | (Inr u, s2) \<Rightarrow>
               (Inr ref, s2\<lparr>heap := (heap s2)(ref := overall_compliance (heap s2 ref))\<rparr>)))"

section \<open>What a pattern matches\<close>

text \<open>
  The meaning of a compiled pattern, stated without the matcher: a text matches a sequence
  when it splits into one piece per item, a single character for a plain item and one or
  more characters for a repeated one. \<open>occurs\<close> says that some substring matches.
  Two texts are case variants when they agree character by character up to letter case.
  \<open>case_closed\<close> holds of items whose negated sets list caseless characters only.
\<close>

fun item_matches :: "bool \<Rightarrow> item \<Rightarrow> string \<Rightarrow> bool" where
  "item_matches ic (One a) w = (case w of [d] \<Rightarrow> atom_matches ic a d | _ \<Rightarrow> False)"
| "item_matches ic (MaxRepeat a) w = (w \<noteq> [] \<and> list_all (atom_matches ic a) w)"

definition sequence_matches :: "bool \<Rightarrow> item list \<Rightarrow> string \<Rightarrow> bool" where
  "sequence_matches ic its v = (\<exists>ws. list_all2 (item_matches ic) its ws \<and> v = concat ws)"

definition fullmatch :: "bool \<Rightarrow> regex \<Rightarrow> string \<Rightarrow> bool" where
  "fullmatch ic rx v = (\<exists>its \<in> set rx. sequence_matches ic its v)"

definition occurs :: "bool \<Rightarrow> regex \<Rightarrow> string \<Rightarrow> bool" where
  "occurs ic rx s = (\<exists>u v w. s = u @ v @ w \<and> fullmatch ic rx v)"

definition same_letter :: "char \<Rightarrow> char \<Rightarrow> bool" where
  "same_letter c d = (lower_chr c = lower_chr d)"

definition case_variant :: "string \<Rightarrow> string \<Rightarrow> bool" where
  "case_variant u v = list_all2 same_letter u v"

fun caseless_item :: "set_item \<Rightarrow> bool" where
  "caseless_item (LITERAL c) = (\<not> is_upper_chr c \<and> \<not> is_lower_chr c)"
| "caseless_item (RANGE lo hi) = False"

fun case_closed :: "item \<Rightarrow> bool" where
  "case_closed (One (Literal c)) = True"
| "case_closed (One (In neg its)) = (neg \<longrightarrow> list_all caseless_item its)"
| "case_closed (MaxRepeat (Literal c)) = True"
| "case_closed (MaxRepeat (In neg its)) = (neg \<longrightarrow> list_all caseless_item its)"

section \<open>Evaluation and loop rules\<close>

lemma eq_char_of_iff: "(c = char_of (n::nat)) = (of_char c = take_bit 8 n)"
  using char_of_eq_iff[of n c] by auto

lemmas char_eval = ord_def lower_chr_def upper_chr_def is_upper_chr_def is_lower_chr_def
  char_of_eq_iff eq_char_of_iff

lemmas compile_eval = re_compile_def bs_def tcons_def is_special_def is_alnum_def

lemma check_standard_cases:
  assumes "check_standard x entry res = Inr res'"
  obtains (skip) "is_applicable (snd entry) x = Inr False" "res' = res"
  | (hit) nm descr where "is_applicable (snd entry) x = Inr True"
      "getitem (snd entry) ''name'' = Inr nm" "getitem (snd entry) ''description'' = Inr descr"
      "res' = res\<lparr>standards_checked := standards_checked res @ [fst entry],
                   details := details res @ [Detail (validation_detail_for (fst entry) nm descr x)]\<rparr>"
  using assms by (auto simp: check_standard_def split: sum.splits if_splits)

lemma for_each_standard_invariant:
  assumes "for_each_standard reg x res = Inr res'"
    and "P res"
    and "\<And>entry r nm descr. entry \<in> set reg \<Longrightarrow> P r \<Longrightarrow> is_applicable (snd entry) x = Inr True \<Longrightarrow>
           getitem (snd entry) ''name'' = Inr nm \<Longrightarrow> getitem (snd entry) ''description'' = Inr descr \<Longrightarrow>
           P (r\<lparr>standards_checked := standards_checked r @ [fst entry],
                details := details r @ [Detail (validation_detail_for (fst entry) nm descr x)]\<rparr>)"
  shows "P res'"
  using assms
proof (induction reg arbitrary: res)
  case Nil
  then show ?case by simp
next
  case (Cons entry rest)
  from Cons.prems(1) obtain mid where mid: "check_standard x entry res = Inr mid"
    and rest: "for_each_standard rest x mid = Inr res'"
    by (auto split: sum.splits)
  have "P mid"
    using mid
  proof (cases rule: check_standard_cases)
    case skip
    then show ?thesis using Cons.prems(2) by simp
  next
    case (hit nm descr)
    then show ?thesis using Cons.prems(3)[of entry res nm descr] Cons.prems(2) by simp
  qed
  then show ?case
    using Cons.IH[OF rest] Cons.prems(3) by simp
qed

lemma for_each_standard_checked:
  "for_each_standard reg x res = Inr res' \<Longrightarrow>
   standards_checked res' =
     standards_checked res @ map fst (filter (\<lambda>entry. is_applicable (snd entry) x = Inr True) reg)"
proof (induction reg arbitrary: res)
  case Nil
  then show ?case by simp
next
  case (Cons entry rest)
  from Cons.prems obtain mid where mid: "check_standard x entry res = Inr mid"
    and rest: "for_each_standard rest x mid = Inr res'"
    by (auto split: sum.splits)
  from mid show ?case
  proof (cases rule: check_standard_cases)
    case skip
    then show ?thesis using Cons.IH[OF rest] by simp
  next
    case (hit nm descr)
    then show ?thesis using Cons.IH[OF rest] by simp
  qed
qed


lemma compile_bip341:
  "re_compile (''tr'' @ bs # ''([A-Za-z0-9]+,'' @ bs # ''{[^}]+'' @ bs # ''}'' @ bs # '')'') =
   Inr [[One (Literal CHR ''t''), One (Literal CHR ''r''), One (Literal CHR ''(''),
         MaxRepeat (In False [RANGE CHR ''A'' CHR ''Z'', RANGE CHR ''a'' CHR ''z'', RANGE CHR ''0'' CHR ''9'']),
         One (Literal CHR '',''), One (Literal CHR ''{''),
         MaxRepeat (In True [LITERAL CHR ''}'']), One (Literal CHR ''}''), One (Literal CHR '')'')]]"
  by (simp add: compile_eval ord_def)

lemma compile_bip342:
  "re_compile ''OP_CHECKSIG|OP_CHECKSIGVERIFY'' =
   Inr [map (\<lambda>c. One (Literal c)) ''OP_CHECKSIG'', map (\<lambda>c. One (Literal c)) ''OP_CHECKSIGVERIFY'']"
  by (simp add: compile_eval ord_def)

lemma compile_bip174:
  "re_compile ''psbt:[0-9a-f]+'' =
   Inr [map (\<lambda>c. One (Literal c)) ''psbt:'' @
        [MaxRepeat (In False [RANGE CHR ''0'' CHR ''9'', RANGE CHR ''a'' CHR ''f''])]]"
  by (simp add: compile_eval ord_def)

lemma compile_bip370:
  "re_compile ''psbt:v2:[0-9a-f]+'' =
   Inr [map (\<lambda>c. One (Literal c)) ''psbt:v2:'' @
        [MaxRepeat (In False [RANGE CHR ''0'' CHR ''9'', RANGE CHR ''a'' CHR ''f''])]]"
  by (simp add: compile_eval ord_def)

lemma registry_well_formed:
  "entry \<in> set (items BIP_STANDARDS) \<Longrightarrow>
   \<exists>pattern rx nm descr. getitem (snd entry) ''validation_regex'' = Inr pattern \<and>
     re_compile pattern = Inr rx \<and> getitem (snd entry) ''name'' = Inr nm \<and>
     getitem (snd entry) ''description'' = Inr descr"
  unfolding items_def BIP_STANDARDS_def
  by (auto simp: getitem_def compile_eval ord_def)

lemma check_standard_total:
  assumes "getitem (snd entry) ''validation_regex'' = Inr pattern" "re_compile pattern = Inr rx"
    "getitem (snd entry) ''name'' = Inr nm" "getitem (snd entry) ''description'' = Inr descr"
  shows "\<exists>res'. check_standard x entry res = Inr res'"
  using assms by (simp add: check_standard_def is_applicable_def re_search_def)

lemma for_each_standard_total:
  assumes "\<And>entry. entry \<in> set reg \<Longrightarrow>
     \<exists>pattern rx nm descr. getitem (snd entry) ''validation_regex'' = Inr pattern \<and>
       re_compile pattern = Inr rx \<and> getitem (snd entry) ''name'' = Inr nm \<and>
       getitem (snd entry) ''description'' = Inr descr"
  shows "\<exists>res'. for_each_standard reg x res = Inr res'"
  using assms
proof (induction reg arbitrary: res)
  case Nil
  then show ?case by simp
next
  case (Cons entry rest)
  from Cons.prems[of entry] obtain pattern rx nm descr where
    "getitem (snd entry) ''validation_regex'' = Inr pattern" "re_compile pattern = Inr rx"
    "getitem (snd entry) ''name'' = Inr nm" "getitem (snd entry) ''description'' = Inr descr"
    by auto
  then obtain mid where "check_standard x entry res = Inr mid"
    using check_standard_total by blast
  moreover obtain res' where "for_each_standard rest x mid = Inr res'"
    using Cons.IH[of mid] Cons.prems by auto
  ultimately show ?case by simp
qed

lemma scan_total: "\<exists>res. for_each_standard (items BIP_STANDARDS) x init = Inr res"
  by (rule for_each_standard_total) (rule registry_well_formed)

lemmas validator_eval = validate_protocol_def BIP_STANDARDS_def items_def check_standard_def
  is_applicable_def getitem_def re_search_def re_compile_def bs_def tcons_def is_special_def
  is_alnum_def match_here_def validation_detail_for_def silent_leaf_check_def
  unsigned_tx_check_def overall_compliance_def lower_def char_eval

lemma example_taproot:
  "validate_protocol ''tr(KEY,{OTHER})'' =
   Inr \<lparr>validation_performed = True, timestamp = ''2025-03-10T08:45:00Z'',
        standards_checked = [''BIP-341''], compliant = True,
        details = [Detail \<lparr>standard = ''BIP-341'', name = ''Taproot'',
                     validation_detail.compliant = True,
                     description = ''Taproot output spending conditions'',
                     warnings = [''Missing recommended SILENT_LEAF pattern for privacy-preserving Taproot scripts'']\<rparr>],
        warning = Some ''Protocol validation passed with warnings''\<rparr>"
  by (simp add: validator_eval)

lemma example_no_markers:
  "validate_protocol ''no markers here'' =
   Inr \<lparr>validation_performed = True, timestamp = ''2025-03-10T08:45:00Z'',
        standards_checked = [], compliant = False,
        details = [Error ''No recognized Bitcoin protocol standards found in input''],
        warning = None\<rparr>"
  by (simp add: validator_eval)

lemma validation_detail_for_fields:
  "standard (validation_detail_for k nm descr x) = k"
  "name (validation_detail_for k nm descr x) = nm"
  "validation_detail.compliant (validation_detail_for k nm descr x) = True"
  "description (validation_detail_for k nm descr x) = descr"
  by (simp_all add: validation_detail_for_def silent_leaf_check_def unsigned_tx_check_def)

lemma overall_compliance_fields:
  "standards_checked (overall_compliance res) = standards_checked res"
  "validation_performed (overall_compliance res) = validation_performed res"
  "timestamp (overall_compliance res) = timestamp res"
  "Detail d \<in> set (details (overall_compliance res)) \<longleftrightarrow> Detail d \<in> set (details res)"
  by (auto simp: overall_compliance_def)

lemma validate_protocol_returns:
  "\<exists>res. for_each_standard (items BIP_STANDARDS) x init = Inr res \<and>
         validate_protocol x = Inr (overall_compliance res)" 
  if "init = \<lparr>validation_performed = True, timestamp = ''2025-03-10T08:45:00Z'',
              standards_checked = [], compliant = True, details = [], warning = None\<rparr>"
  using scan_total[of x init] that by (auto simp: validate_protocol_def)

section \<open>The matcher finds exactly the occurrences\<close>

lemma item_matches_One: "item_matches ic (One a) w \<longleftrightarrow> (\<exists>d. w = [d] \<and> atom_matches ic a d)"
  by (auto split: list.splits)

lemma sequence_matches_Nil: "sequence_matches ic [] v \<longleftrightarrow> v = []"
  by (simp add: sequence_matches_def)

lemma sequence_matches_One:
  "sequence_matches ic (One a # its) v \<longleftrightarrow>
   (\<exists>d v'. v = d # v' \<and> atom_matches ic a d \<and> sequence_matches ic its v')"
  unfolding sequence_matches_def list_all2_Cons1 item_matches_One by fastforce

lemma sequence_matches_MaxRepeat:
  "sequence_matches ic (MaxRepeat a # its) v \<longleftrightarrow>
   (\<exists>d v'. v = d # v' \<and> atom_matches ic a d \<and>
      (sequence_matches ic its v' \<or> sequence_matches ic (MaxRepeat a # its) v'))"
  (is "?L \<longleftrightarrow> ?R")
proof
  assume ?L
  then obtain w ws where ws: "list_all2 (item_matches ic) its ws" and v: "v = w @ concat ws"
    and w: "w \<noteq> []" "list_all (atom_matches ic a) w"
    by (auto simp: sequence_matches_def list_all2_Cons1)
  from w obtain d w' where w': "w = d # w'" by (cases w) auto
  show ?R
  proof (cases "w' = []")
    case True
    then show ?thesis using ws v w w' by (auto simp: sequence_matches_def)
  next
    case False
    then have "list_all2 (item_matches ic) (MaxRepeat a # its) (w' # ws)"
      using ws w w' by simp
    then have "sequence_matches ic (MaxRepeat a # its) (w' @ concat ws)"
      unfolding sequence_matches_def by (metis concat.simps(2))
    then show ?thesis using v w w' by auto
  qed
next
  assume ?R
  then obtain d v' where v: "v = d # v'" and d: "atom_matches ic a d"
    and rest: "sequence_matches ic its v' \<or> sequence_matches ic (MaxRepeat a # its) v'"
    by blast
  from rest show ?L
  proof
    assume "sequence_matches ic its v'"
    then obtain ws where "list_all2 (item_matches ic) its ws" "v' = concat ws"
      by (auto simp: sequence_matches_def)
    then have "list_all2 (item_matches ic) (MaxRepeat a # its) ([d] # ws)" "v = concat ([d] # ws)"
      using d v by simp_all
    then show ?L unfolding sequence_matches_def by blast
  next
    assume "sequence_matches ic (MaxRepeat a # its) v'"
    then obtain w ws where "list_all2 (item_matches ic) its ws" "v' = w @ concat ws"
      "w \<noteq> []" "list_all (atom_matches ic a) w"
      by (auto simp: sequence_matches_def list_all2_Cons1)
    then have "list_all2 (item_matches ic) (MaxRepeat a # its) ((d # w) # ws)"
      "v = concat ((d # w) # ws)"
      using d v by simp_all
    then show ?L unfolding sequence_matches_def by blast
  qed
qed

lemma sequence_matches_Cons_Nil: "\<not> sequence_matches ic (i # its) []"
  by (cases i) (auto simp: sequence_matches_def list_all2_Cons1)

lemma sequence_matches_One_Cons:
  "sequence_matches ic (One a # its) (d # v) \<longleftrightarrow> atom_matches ic a d \<and> sequence_matches ic its v"
  by (simp add: sequence_matches_One)

lemma sequence_matches_MaxRepeat_Cons:
  "sequence_matches ic (MaxRepeat a # its) (d # v) \<longleftrightarrow>
   atom_matches ic a d \<and> (sequence_matches ic its v \<or> sequence_matches ic (MaxRepeat a # its) v)"
  by (subst sequence_matches_MaxRepeat) simp

lemma prefix_of_Cons:
  "(\<exists>v t'. d # t = v @ t' \<and> P v) \<longleftrightarrow> P [] \<or> (\<exists>v t'. t = v @ t' \<and> P (d # v))"
  by (auto simp: Cons_eq_append_conv)

lemma match_seq_iff:
  "match_seq ic its s \<longleftrightarrow> (\<exists>v t. s = v @ t \<and> sequence_matches ic its v)"
proof (induction ic its s rule: match_seq.induct)
  case (1 ic s)
  then show ?case by (simp add: sequence_matches_Nil)
next
  case (2 ic i "is")
  then show ?case by (simp add: sequence_matches_Cons_Nil)
next
  case (3 ic a "is" d t)
  have "(\<exists>v t'. d # t = v @ t' \<and> sequence_matches ic (One a # is) v) \<longleftrightarrow>
        atom_matches ic a d \<and> (\<exists>v t'. t = v @ t' \<and> sequence_matches ic is v)"
    unfolding prefix_of_Cons sequence_matches_One_Cons
    by (simp add: sequence_matches_Cons_Nil) blast
  with 3 show ?case by simp
next
  case (4 ic a "is" d t)
  have "(\<exists>v t'. d # t = v @ t' \<and> sequence_matches ic (MaxRepeat a # is) v) \<longleftrightarrow>
        atom_matches ic a d \<and>
          ((\<exists>v t'. t = v @ t' \<and> sequence_matches ic (MaxRepeat a # is) v) \<or>
           (\<exists>v t'. t = v @ t' \<and> sequence_matches ic is v))"
    unfolding prefix_of_Cons sequence_matches_MaxRepeat_Cons
    by (simp add: sequence_matches_Cons_Nil) blast
  with 4 show ?case
    by (cases "atom_matches ic a d"; cases "match_seq ic (MaxRepeat a # is) t") auto
qed

lemma match_here_iff:
  "match_here ic rx s \<longleftrightarrow> (\<exists>v t. s = v @ t \<and> fullmatch ic rx v)"
  unfolding match_here_def fullmatch_def list_ex_iff match_seq_iff by blast

lemma occurs_Nil: "occurs ic rx [] \<longleftrightarrow> fullmatch ic rx []"
  by (simp add: occurs_def)

lemma occurs_Cons:
  "occurs ic rx (c # cs) \<longleftrightarrow> (\<exists>v t. c # cs = v @ t \<and> fullmatch ic rx v) \<or> occurs ic rx cs"
proof
  assume "occurs ic rx (c # cs)"
  then obtain u v w where s: "c # cs = u @ v @ w" and m: "fullmatch ic rx v"
    unfolding occurs_def by blast
  show "(\<exists>v t. c # cs = v @ t \<and> fullmatch ic rx v) \<or> occurs ic rx cs"
  proof (cases u)
    case Nil
    then show ?thesis using s m by auto
  next
    case (Cons a u')
    then have "cs = u' @ v @ w" using s by simp
    then show ?thesis using m unfolding occurs_def by blast
  qed
next
  assume "(\<exists>v t. c # cs = v @ t \<and> fullmatch ic rx v) \<or> occurs ic rx cs"
  then show "occurs ic rx (c # cs)"
  proof
    assume "\<exists>v t. c # cs = v @ t \<and> fullmatch ic rx v"
    then obtain v t where "c # cs = [] @ v @ t" "fullmatch ic rx v" by auto
    then show ?thesis unfolding occurs_def by blast
  next
    assume "occurs ic rx cs"
    then obtain u v w where "cs = u @ v @ w" "fullmatch ic rx v"
      unfolding occurs_def by blast
    then have "c # cs = (c # u) @ v @ w" by simp
    then show ?thesis using \<open>fullmatch ic rx v\<close> unfolding occurs_def by blast
  qed
qed

lemma search_iff_occurs: "search ic rx s \<longleftrightarrow> occurs ic rx s"
proof (induction s)
  case Nil
  then show ?case by (simp add: occurs_Nil match_here_iff)
next
  case (Cons c cs)
  then show ?case unfolding occurs_Cons by (auto simp: match_here_iff)
qed

section \<open>Letter case\<close>

lemma ord_less_256: "ord c < 256"
  by (simp add: ord_def)

lemma ord_eq_iff: "ord c = ord d \<longleftrightarrow> c = d"
  by (simp add: ord_def)

lemma ord_char_of: "n < 256 \<Longrightarrow> ord (char_of n) = n"
  by (simp add: ord_def)

lemma ord_lower_chr: "ord (lower_chr c) = (if is_upper_chr c then ord c + 32 else ord c)"
  by (auto simp: lower_chr_def is_upper_chr_def ord_char_of)

lemma ord_upper_chr: "ord (upper_chr c) = (if is_lower_chr c then ord c - 32 else ord c)"
  using ord_less_256[of c] by (auto simp: upper_chr_def is_lower_chr_def ord_char_of)

lemma lower_chr_eq_iff:
  "lower_chr c = lower_chr d \<longleftrightarrow>
   (if is_upper_chr c then ord c + 32 else ord c) = (if is_upper_chr d then ord d + 32 else ord d)"
  by (simp only: ord_eq_iff[symmetric] ord_lower_chr)

lemma lower_chr_idem: "lower_chr (lower_chr c) = lower_chr c"
  unfolding ord_eq_iff[symmetric]
  by (auto simp: ord_lower_chr is_upper_chr_def)

lemma lower_upper_chr: "lower_chr (upper_chr c) = lower_chr c"
  unfolding ord_eq_iff[symmetric]
  by (auto simp: ord_lower_chr ord_upper_chr is_upper_chr_def is_lower_chr_def)

lemma same_letter_cases:
  assumes "same_letter d d'"
  shows "d' = d \<or> d' = lower_chr d \<or> d' = upper_chr d"
  using assms unfolding same_letter_def lower_chr_eq_iff ord_eq_iff[symmetric]
  by (auto simp: ord_lower_chr ord_upper_chr is_upper_chr_def is_lower_chr_def split: if_splits)

lemma same_letter_caseless:
  assumes "same_letter d c" "\<not> is_upper_chr c" "\<not> is_lower_chr c"
  shows "d = c"
proof -
  from assms(1) have "(if is_upper_chr d then ord d + 32 else ord d) = ord c"
    using assms(2) unfolding same_letter_def lower_chr_eq_iff by simp
  then have "ord d = ord c"
    using assms(2,3) by (auto simp: is_upper_chr_def is_lower_chr_def split: if_splits)
  then show ?thesis by (simp only: ord_eq_iff)
qed


lemma atom_matches_case_variant:
  assumes "atom_matches False a d'" "same_letter d d'"
    and "case_closed (One a)"
  shows "atom_matches True a d"
proof (cases a)
  case (Literal c)
  then show ?thesis using assms by (simp add: same_letter_def)
next
  case (In neg its)
  show ?thesis
  proof (cases neg)
    case False
    then obtain i where i: "i \<in> set its" "in_item i d'"
      using assms(1) In by (auto simp: list_ex_iff)
    from same_letter_cases[OF assms(2)] i(2)
    have "in_item i d \<or> in_item i (lower_chr d) \<or> in_item i (upper_chr d)" by auto
    then show ?thesis using i(1) In False by (auto simp: list_ex_iff)
  next
    case True
    have "\<not> (in_item i d \<or> in_item i (lower_chr d) \<or> in_item i (upper_chr d))"
      if i: "i \<in> set its" for i
    proof -
      from i assms(3) In True have "caseless_item i"
        by (simp add: list_all_iff)
      then obtain c where c: "i = LITERAL c" "\<not> is_upper_chr c" "\<not> is_lower_chr c"
        by (cases i) simp_all
      from i assms(1) In True have "d' \<noteq> c" using c by (auto simp: list_ex_iff)
      have sl: "same_letter d c \<Longrightarrow> d = c" using same_letter_caseless c by blast
      have "d \<noteq> c"
      proof
        assume "d = c"
        then have "same_letter d' c" using assms(2) by (simp add: same_letter_def)
        then show False using same_letter_caseless c \<open>d' \<noteq> c\<close> by blast
      qed
      moreover have "lower_chr d \<noteq> c"
      proof
        assume "lower_chr d = c"
        then have "same_letter d c" using lower_chr_idem[of d] by (simp add: same_letter_def)
        then show False using sl \<open>d \<noteq> c\<close> by blast
      qed
      moreover have "upper_chr d \<noteq> c"
      proof
        assume "upper_chr d = c"
        then have "lower_chr d = lower_chr c" using lower_upper_chr[of d] by simp
        then show False using sl \<open>d \<noteq> c\<close> by (simp add: same_letter_def)
      qed
      ultimately show ?thesis using c by simp
    qed
    then show ?thesis using In True by (auto simp: list_ex_iff)
  qed
qed

lemma item_matches_case_variant:
  assumes "item_matches False i w'" "case_variant w w'" "case_closed i"
  shows "item_matches True i w"
proof (cases i)
  case (One a)
  then obtain d' where "w' = [d']" "atom_matches False a d'"
    using assms(1) unfolding One item_matches_One by blast
  moreover then obtain d where "w = [d]" "same_letter d d'"
    using assms(2) by (auto simp: case_variant_def list_all2_Cons2)
  ultimately show ?thesis
    using atom_matches_case_variant[of a d' d] assms(3) unfolding One item_matches_One by blast
next
  case (MaxRepeat a)
  have cc: "case_closed (One a)" using assms(3) MaxRepeat by (cases a) auto
  have "list_all (atom_matches True a) w"
    unfolding list_all_length
  proof (intro allI impI)
    fix n assume n: "n < length w"
    then have "same_letter (w ! n) (w' ! n)" "n < length w'"
      using assms(2) by (auto simp: case_variant_def list_all2_conv_all_nth)
    moreover have "atom_matches False a (w' ! n)"
      using assms(1) MaxRepeat \<open>n < length w'\<close> by (auto simp: list_all_length)
    ultimately show "atom_matches True a (w ! n)"
      using atom_matches_case_variant cc by blast
  qed
  moreover have "w \<noteq> []"
    using assms(1,2) MaxRepeat by (auto simp: case_variant_def)
  ultimately show ?thesis using MaxRepeat by simp
qed

lemma list_all2_concat_split:
  "list_all2 R v (concat ws') \<Longrightarrow> \<exists>ws. v = concat ws \<and> list_all2 (list_all2 R) ws ws'"
proof (induction ws' arbitrary: v)
  case Nil
  then show ?case by simp
next
  case (Cons w' ws')
  from Cons.prems obtain v1 v2 where v: "v = v1 @ v2" "list_all2 R v1 w'" "list_all2 R v2 (concat ws')"
    by (auto simp: list_all2_append2)
  from Cons.IH[OF v(3)] obtain ws where "v2 = concat ws" "list_all2 (list_all2 R) ws ws'" by blast
  then have "v = concat (v1 # ws)" "list_all2 (list_all2 R) (v1 # ws) (w' # ws')"
    using v by simp_all
  then show ?case by blast
qed

lemma sequence_matches_case_variant:
  assumes "sequence_matches False its v'" "case_variant v v'" "list_all case_closed its"
  shows "sequence_matches True its v"
proof -
  from assms(1) obtain ws' where ws': "list_all2 (item_matches False) its ws'" "v' = concat ws'"
    by (auto simp: sequence_matches_def)
  from assms(2) ws'(2) obtain ws where ws: "v = concat ws" "list_all2 case_variant ws ws'"
    using list_all2_concat_split[of same_letter v ws'] 
    by (auto simp: case_variant_def[abs_def])
  have "list_all2 (item_matches True) its ws"
    unfolding list_all2_conv_all_nth
  proof (intro conjI allI impI)
    show "length its = length ws"
      using ws'(1) ws(2) by (simp add: list_all2_lengthD)
  next
    fix n assume n: "n < length its"
    then have "item_matches False (its ! n) (ws' ! n)" "case_variant (ws ! n) (ws' ! n)"
      "case_closed (its ! n)"
      using ws'(1) ws(2) assms(3)
      by (auto simp: list_all2_conv_all_nth list_all_length)
    then show "item_matches True (its ! n) (ws ! n)"
      by (rule item_matches_case_variant)
  qed
  then show ?thesis using ws(1) by (auto simp: sequence_matches_def)
qed

lemma fullmatch_case_variant:
  assumes "fullmatch False rx v'" "case_variant v v'" "list_all (list_all case_closed) rx"
  shows "fullmatch True rx v"
  using assms sequence_matches_case_variant
  unfolding fullmatch_def list_all_iff by blast

section \<open>Substrings, warnings and unmatched input\<close>

lemma validate_protocol_total: "\<exists>res. validate_protocol x = Inr res"
  using validate_protocol_returns[OF refl, of x] by blast

lemma startswith_iff: "startswith s p \<longleftrightarrow> (\<exists>t. s = p @ t)"
  by (induction s p rule: startswith.induct) auto

lemma contains_iff: "contains s sub \<longleftrightarrow> (\<exists>u w. s = u @ sub @ w)"
proof (induction s)
  case Nil
  then show ?case by simp
next
  case (Cons c cs)
  have "(\<exists>u w. c # cs = u @ sub @ w) \<longleftrightarrow> (\<exists>t. c # cs = sub @ t) \<or> (\<exists>u w. cs = u @ sub @ w)"
  proof
    assume "\<exists>u w. c # cs = u @ sub @ w"
    then obtain u w where s: "c # cs = u @ sub @ w" by blast
    show "(\<exists>t. c # cs = sub @ t) \<or> (\<exists>u w. cs = u @ sub @ w)"
    proof (cases u)
      case Nil
      then show ?thesis using s by auto
    next
      case (Cons a u')
      then have "cs = u' @ sub @ w" using s by simp
      then show ?thesis by blast
    qed
  next
    assume "(\<exists>t. c # cs = sub @ t) \<or> (\<exists>u w. cs = u @ sub @ w)"
    then show "\<exists>u w. c # cs = u @ sub @ w"
    proof
      assume "\<exists>t. c # cs = sub @ t"
      then obtain t where "c # cs = [] @ sub @ t" by auto
      then show ?thesis by blast
    next
      assume "\<exists>u w. cs = u @ sub @ w"
      then obtain u w where "c # cs = (c # u) @ sub @ w" by auto
      then show ?thesis by blast
    qed
  qed
  then show ?case using Cons by (simp add: startswith_iff)
qed

lemma warnings_validation_detail_for:
  "warnings (validation_detail_for k nm descr x) =
     (if k = ''BIP-341'' \<and> \<not> contains x ''SILENT_LEAF''
      then [''Missing recommended SILENT_LEAF pattern for privacy-preserving Taproot scripts'']
      else []) @
     (if k = ''BIP-174'' \<and> \<not> contains (lower x) ''unsigned_tx''
      then [''PSBT should include unsigned_tx field''] else [])"
  by (simp add: validation_detail_for_def silent_leaf_check_def unsigned_tx_check_def)

lemma is_applicable_occurs:
  assumes "getitem bip_info ''validation_regex'' = Inr pattern" "re_compile pattern = Inr rx"
  shows "is_applicable bip_info x = Inr (occurs True rx x)"
  using assms by (simp add: is_applicable_def re_search_def search_iff_occurs)

lemma unmatched_scan:
  assumes "\<And>bip_id bip_info pattern rx. (bip_id, bip_info) \<in> set (items BIP_STANDARDS) \<Longrightarrow>
      getitem bip_info ''validation_regex'' = Inr pattern \<Longrightarrow> re_compile pattern = Inr rx \<Longrightarrow>
      \<not> occurs True rx x"
    and "for_each_standard (items BIP_STANDARDS) x init = Inr res"
  shows "res = init"
  using assms(2)
proof (rule for_each_standard_invariant)
  show "init = init" by simp
next
  fix entry :: "string \<times> string dict" and r :: results and nm descr
  assume entry: "entry \<in> set (items BIP_STANDARDS)" and app: "is_applicable (snd entry) x = Inr True"
  from registry_well_formed[OF entry] obtain pattern rx where
    p: "getitem (snd entry) ''validation_regex'' = Inr pattern" "re_compile pattern = Inr rx"
    by blast
  have "\<not> occurs True rx x"
    using assms(1)[of "fst entry" "snd entry" pattern rx] entry p by simp
  with app is_applicable_occurs[OF p, of x] show
    "r\<lparr>standards_checked := standards_checked r @ [fst entry],
       details := details r @ [Detail (validation_detail_for (fst entry) nm descr x)]\<rparr> = init"
    by simp
qed

lemma unmatched_report:
  assumes "\<And>bip_id bip_info pattern rx. (bip_id, bip_info) \<in> set (items BIP_STANDARDS) \<Longrightarrow>
      getitem bip_info ''validation_regex'' = Inr pattern \<Longrightarrow> re_compile pattern = Inr rx \<Longrightarrow>
      \<not> occurs True rx x"
  shows "validate_protocol x =
     Inr \<lparr>validation_performed = True, timestamp = ''2025-03-10T08:45:00Z'',
          standards_checked = [], compliant = False,
          details = [Error ''No recognized Bitcoin protocol standards found in input''],
          warning = None\<rparr>"
proof -
  obtain res where run: "for_each_standard (items BIP_STANDARDS) x
       \<lparr>validation_performed = True, timestamp = ''2025-03-10T08:45:00Z'',
        standards_checked = [], compliant = True, details = [], warning = None\<rparr> = Inr res"
    and ret: "validate_protocol x = Inr (overall_compliance res)"
    using validate_protocol_returns[OF refl] by blast
  from unmatched_scan[OF assms run] ret show ?thesis
    by (simp add: overall_compliance_def)
qed

lemmas search_eval = search_iff_occurs[symmetric] match_here_def char_eval

lemma no_markers_unmatched:
  "\<forall>(bip_id, bip_info) \<in> set (items BIP_STANDARDS). \<forall>pattern rx.
      getitem bip_info ''validation_regex'' = Inr pattern \<longrightarrow> re_compile pattern = Inr rx \<longrightarrow>
      \<not> occurs True rx ''no markers here''"
  unfolding items_def BIP_STANDARDS_def
  by (simp add: getitem_def compile_eval search_eval)

lemma empty_unmatched:
  "\<forall>(bip_id, bip_info) \<in> set (items BIP_STANDARDS). \<forall>pattern rx.
      getitem bip_info ''validation_regex'' = Inr pattern \<longrightarrow> re_compile pattern = Inr rx \<longrightarrow>
      \<not> occurs True rx ''''"
  unfolding items_def BIP_STANDARDS_def
  by (simp add: getitem_def compile_eval search_eval)

lemma warning_strings_nonempty:
  "w \<in> set (warnings (validation_detail_for k nm descr x)) \<Longrightarrow> w \<noteq> []"
  unfolding warnings_validation_detail_for
  by (cases "k = ''BIP-341'' \<and> \<not> contains x ''SILENT_LEAF''";
      cases "k = ''BIP-174'' \<and> \<not> contains (lower x) ''unsigned_tx''";
      simp only: if_True if_False; auto)

section \<open>Registry facts and case variants of substrings\<close>

lemma registry_case_closed:
  assumes "(bip_id, bip_info) \<in> set (items BIP_STANDARDS)"
    "getitem bip_info ''validation_regex'' = Inr pattern" "re_compile pattern = Inr rx"
  shows "list_all (list_all case_closed) rx"
  using assms unfolding items_def BIP_STANDARDS_def
  by (auto simp: getitem_def compile_eval ord_def is_upper_chr_def is_lower_chr_def)

lemma registry_keys_distinct: "distinct (map fst (items BIP_STANDARDS))"
  by (simp add: items_def BIP_STANDARDS_def)

lemma count_list_filtered_keys:
  assumes "distinct (map fst reg)" "(k, v) \<in> set reg"
  shows "count_list (map fst (filter P reg)) k = (if P (k, v) then 1 else 0)"
  using assms
proof (induction reg)
  case Nil
  then show ?case by simp
next
  case (Cons e reg)
  show ?case
  proof (cases "e = (k, v)")
    case True
    then have "k \<notin> fst ` set reg" using Cons.prems(1) by auto
    then have "count_list (map fst (filter P reg)) k = 0"
      by (auto simp: count_list_0_iff)
    then show ?thesis using True by simp
  next
    case False
    then have in_reg: "(k, v) \<in> set reg" using Cons.prems(2) by simp
    then have "fst e \<noteq> k" using Cons.prems(1) by (auto simp: image_iff)
    then show ?thesis using Cons.IH in_reg Cons.prems(1) by simp
  qed
qed

lemmas fullmatch_eval = fullmatch_def sequence_matches_Nil sequence_matches_Cons_Nil
  sequence_matches_One_Cons sequence_matches_MaxRepeat_Cons

lemma case_variant_iff_lower: "case_variant v s \<longleftrightarrow> lower v = lower s"
proof -
  have "list_all2 (\<lambda>a b. lower_chr a = lower_chr b) v s \<longleftrightarrow>
        list_all2 (=) (map lower_chr v) (map lower_chr s)"
    by (simp add: list_all2_map1 list_all2_map2)
  then show ?thesis
    by (simp add: case_variant_def same_letter_def[abs_def] lower_def list.rel_eq)
qed

lemma lower_unsigned_tx: "lower ''unsigned_tx'' = ''unsigned_tx''"
  by (simp add: lower_def char_eval)

lemma map_eq_sandwich:
  "map f x = u' @ s @ w' \<Longrightarrow> \<exists>u v w. x = u @ v @ w \<and> map f v = s"
proof -
  assume "map f x = u' @ s @ w'"
  then obtain u t where x: "x = u @ t" and "s @ w' = map f t"
    by (auto simp: map_eq_append_conv)
  then obtain v w where "t = v @ w" "s = map f v"
    by (auto simp: append_eq_map_conv)
  with x have "x = u @ v @ w \<and> map f v = s" by simp
  then show ?thesis by blast
qed

lemma contains_lower_iff:
  assumes "lower s = s"
  shows "contains (lower x) s \<longleftrightarrow> (\<exists>u v w. x = u @ v @ w \<and> case_variant v s)"
proof
  assume "contains (lower x) s"
  then obtain u' w' where "map lower_chr x = u' @ s @ w'"
    unfolding contains_iff lower_def by blast
  from map_eq_sandwich[OF this] obtain u v w where "x = u @ v @ w" "lower v = s"
    unfolding lower_def by blast
  then have "x = u @ v @ w \<and> case_variant v s"
    using assms by (simp add: case_variant_iff_lower)
  then show "\<exists>u v w. x = u @ v @ w \<and> case_variant v s" by blast
next
  assume "\<exists>u v w. x = u @ v @ w \<and> case_variant v s"
  then obtain u v w where "x = u @ v @ w" "lower v = s"
    using assms by (auto simp: case_variant_iff_lower)
  then have "lower x = lower u @ s @ lower w"
    by (simp add: lower_def)
  then show "contains (lower x) s"
    unfolding contains_iff by blast
qed

lemma contains_lower_unsigned_tx:
  "contains (lower x) ''unsigned_tx'' \<longleftrightarrow>
   (\<exists>u v w. x = u @ v @ w \<and> case_variant v ''unsigned_tx'')"
  by (rule contains_lower_iff) (rule lower_unsigned_tx)

lemma warnings_bip341:
  "warnings (validation_detail_for ''BIP-341'' nm descr x) =
     (if contains x ''SILENT_LEAF'' then []
      else [''Missing recommended SILENT_LEAF pattern for privacy-preserving Taproot scripts''])"
  unfolding warnings_validation_detail_for by simp

lemma warnings_bip174:
  "warnings (validation_detail_for ''BIP-174'' nm descr x) =
     (if contains (lower x) ''unsigned_tx'' then []
      else [''PSBT should include unsigned_tx field''])"
  unfolding warnings_validation_detail_for by simp

lemma bip341_warning_iff:
  "warnings (validation_detail_for ''BIP-341'' nm descr x) =
     [''Missing recommended SILENT_LEAF pattern for privacy-preserving Taproot scripts'']
   \<longleftrightarrow> \<not> (\<exists>u w. x = u @ ''SILENT_LEAF'' @ w)"
  unfolding warnings_bip341 contains_iff[symmetric] by simp

lemma bip174_warning_iff:
  "warnings (validation_detail_for ''BIP-174'' nm descr x) = []
   \<longleftrightarrow> (\<exists>u v w. x = u @ v @ w \<and> case_variant v ''unsigned_tx'')"
  unfolding warnings_bip174 contains_lower_unsigned_tx[symmetric] by simp

lemma example_mixed_case:
  "validate_protocol ''tr(a,{silent_leaf}) psbt:0 Unsigned_TX'' =
   Inr \<lparr>validation_performed = True, timestamp = ''2025-03-10T08:45:00Z'',
        standards_checked = [''BIP-341'', ''BIP-174''], compliant = True,
        details = [Detail \<lparr>standard = ''BIP-341'', name = ''Taproot'',
                     validation_detail.compliant = True,
                     description = ''Taproot output spending conditions'',
                     warnings = [''Missing recommended SILENT_LEAF pattern for privacy-preserving Taproot scripts'']\<rparr>,
                   Detail \<lparr>standard = ''BIP-174'', name = ''PSBT'',
                     validation_detail.compliant = True,
                     description = ''Partially Signed Bitcoin Transaction'',
                     warnings = []\<rparr>],
        warning = Some ''Protocol validation passed with warnings''\<rparr>"
  by (simp add: validator_eval)

section \<open>A call stores the report of the input text\<close>

lemma for_each_standard_at_stores:
  "for_each_standard reg x (heap s ref) = Inr res' \<Longrightarrow>
   for_each_standard_at reg x ref s = (Inr (), s\<lparr>heap := (heap s)(ref := res')\<rparr>)"
proof (induction reg arbitrary: s)
  case Nil
  then have "(heap s)(ref := res') = heap s" by auto
  then show ?case by simp
next
  case (Cons entry rest)
  from Cons.prems obtain mid where mid: "check_standard x entry (heap s ref) = Inr mid"
    and rest: "for_each_standard rest x mid = Inr res'"
    by (auto split: sum.splits)
  let ?s = "s\<lparr>heap := (heap s)(ref := mid)\<rparr>"
  have "for_each_standard rest x (heap ?s ref) = Inr res'"
    using rest by simp
  from Cons.IH[OF this]
  have "for_each_standard_at rest x ref ?s = (Inr (), ?s\<lparr>heap := (heap ?s)(ref := res')\<rparr>)" .
  moreover have "(heap ?s)(ref := res') = (heap s)(ref := res')"
    by (rule ext) simp
  then have "?s\<lparr>heap := (heap ?s)(ref := res')\<rparr> = s\<lparr>heap := (heap s)(ref := res')\<rparr>"
    by (cases s) simp
  ultimately show ?case
    using mid by (simp add: fun_upd_def)
qed

lemma validate_protocol_call_stores:
  assumes "global_BIP_STANDARDS s = BIP_STANDARDS" "validate_protocol x = Inr r"
  shows "validate_protocol_call x s =
     (Inr (next_ref s), s\<lparr>heap := (heap s)(next_ref s := r), next_ref := Suc (next_ref s)\<rparr>)"
proof -
  let ?init = "\<lparr>validation_performed = True, timestamp = ''2025-03-10T08:45:00Z'',
              standards_checked = [], compliant = True, details = [], warning = None\<rparr>"
  let ?s1 = "s\<lparr>heap := (heap s)(next_ref s := ?init), next_ref := Suc (next_ref s)\<rparr>"
  from assms(2) obtain res where run: "for_each_standard (items BIP_STANDARDS) x ?init = Inr res"
    and r: "r = overall_compliance res"
    by (auto simp: validate_protocol_def split: sum.splits)
  have "for_each_standard (items BIP_STANDARDS) x (heap ?s1 (next_ref s)) = Inr res"
    using run by simp
  from for_each_standard_at_stores[OF this]
  have "for_each_standard_at (items BIP_STANDARDS) x (next_ref s) ?s1 =
      (Inr (), ?s1\<lparr>heap := (heap ?s1)(next_ref s := res)\<rparr>)" .
  then show ?thesis
    using assms(1) r by (simp add: validate_protocol_call_def new_results_def)
qed

section \<open>Properties of the validator\<close>

text \<open>
  C8. For every input text, every per-standard detail of the returned report has its
  \<open>compliant\<close> field equal to true, and every standard listed in
  \<open>standards_checked\<close> has such a detail.
\<close>

theorem details_always_compliant:
  "\<exists>res. validate_protocol x = Inr res \<and>
     (\<forall>d. Detail d \<in> set (details res) \<longrightarrow> validation_detail.compliant d) \<and>
     (\<forall>k \<in> set (standards_checked res).
        \<exists>d. Detail d \<in> set (details res) \<and> standard d = k \<and> validation_detail.compliant d)"
proof -
  let ?init = "\<lparr>validation_performed = True, timestamp = ''2025-03-10T08:45:00Z'',
              standards_checked = [], compliant = True, details = [], warning = None\<rparr>"
  let ?P = "\<lambda>r. (\<forall>d. Detail d \<in> set (details r) \<longrightarrow> validation_detail.compliant d) \<and>
     (\<forall>k \<in> set (standards_checked r).
        \<exists>d. Detail d \<in> set (details r) \<and> standard d = k \<and> validation_detail.compliant d)"
  obtain res where run: "for_each_standard (items BIP_STANDARDS) x ?init = Inr res"
    and ret: "validate_protocol x = Inr (overall_compliance res)"
    using validate_protocol_returns[OF refl] by blast
  have "?P res"
    using run
  proof (rule for_each_standard_invariant[where P = ?P])
    show "?P ?init" by simp
  next
    fix entry :: "string \<times> string dict" and r :: results and nm descr
    assume "?P r"
    then show "?P (r\<lparr>standards_checked := standards_checked r @ [fst entry],
                details := details r @ [Detail (validation_detail_for (fst entry) nm descr x)]\<rparr>)"
      by (auto simp: validation_detail_for_fields)
  qed
  then have "?P (overall_compliance res)"
    by (simp add: overall_compliance_fields)
  with ret show ?thesis by blast
qed

theorem details_always_compliant_witness:
  "\<exists>res d. validate_protocol ''tr(KEY,{OTHER})'' = Inr res \<and> standards_checked res = [''BIP-341''] \<and>
     Detail d \<in> set (details res) \<and> standard d = ''BIP-341'' \<and> validation_detail.compliant d"
  using details_always_compliant[of "''tr(KEY,{OTHER})''"] by (simp add: example_taproot)

text \<open>
  C2. If no registered detection pattern occurs anywhere in the input (searching as
  \<open>re.search\<close> does with \<open>re.IGNORECASE\<close>), the report has
  \<open>compliant = False\<close>, an empty \<open>standards_checked\<close>, and its
  \<open>details\<close> consist of exactly the one "no recognized standard" error entry.
\<close>

theorem no_recognized_standard:
  assumes "\<forall>(bip_id, bip_info) \<in> set (items BIP_STANDARDS). \<forall>pattern rx.
      getitem bip_info ''validation_regex'' = Inr pattern \<longrightarrow> re_compile pattern = Inr rx \<longrightarrow>
      \<not> occurs True rx x"
  shows "\<exists>res. validate_protocol x = Inr res \<and> \<not> compliant res \<and> standards_checked res = [] \<and>
     details res = [Error ''No recognized Bitcoin protocol standards found in input'']"
proof -
  have "validate_protocol x =
     Inr \<lparr>validation_performed = True, timestamp = ''2025-03-10T08:45:00Z'',
          standards_checked = [], compliant = False,
          details = [Error ''No recognized Bitcoin protocol standards found in input''],
          warning = None\<rparr>"
    by (rule unmatched_report) (use assms in blast)
  then show ?thesis by simp
qed

theorem no_recognized_standard_witness:
  "\<exists>res. validate_protocol ''no markers here'' = Inr res \<and> \<not> compliant res \<and>
     standards_checked res = [] \<and>
     details res = [Error ''No recognized Bitcoin protocol standards found in input'']"
  using no_recognized_standard[OF no_markers_unmatched] .

text \<open>
  C7. \<open>validate_protocol\<close> returns a report for every input text, the empty one
  included: no \<open>KeyError\<close> and no \<open>re.error\<close> can arise. The report is
  fully populated (\<open>validation_performed\<close> set, the timestamp present, a non-empty
  \<open>details\<close> list with one entry per checked standard or else the single error entry),
  and input without any match is answered by \<open>compliant = False\<close> in that report.
\<close>

theorem validate_protocol_never_raises:
  "\<exists>res. validate_protocol x = Inr res \<and> validation_performed res \<and>
     timestamp res = ''2025-03-10T08:45:00Z'' \<and> details res \<noteq> [] \<and>
     length (details res) = max 1 (length (standards_checked res)) \<and>
     (compliant res \<longleftrightarrow> standards_checked res \<noteq> []) \<and>
     ((\<forall>(bip_id, bip_info) \<in> set (items BIP_STANDARDS). \<forall>pattern rx.
         getitem bip_info ''validation_regex'' = Inr pattern \<longrightarrow> re_compile pattern = Inr rx \<longrightarrow>
         \<not> occurs True rx x) \<longrightarrow>
      \<not> compliant res \<and>
      details res = [Error ''No recognized Bitcoin protocol standards found in input''])"
proof -
  let ?init = "\<lparr>validation_performed = True, timestamp = ''2025-03-10T08:45:00Z'',
              standards_checked = [], compliant = True, details = [], warning = None\<rparr>"
  let ?P = "\<lambda>r. validation_performed r \<and> timestamp r = ''2025-03-10T08:45:00Z'' \<and> compliant r \<and>
     length (details r) = length (standards_checked r)"
  obtain res where run: "for_each_standard (items BIP_STANDARDS) x ?init = Inr res"
    and ret: "validate_protocol x = Inr (overall_compliance res)"
    using validate_protocol_returns[OF refl] by blast
  have "?P res"
    using run by (rule for_each_standard_invariant) simp_all
  then have 1: "validation_performed (overall_compliance res)"
    "timestamp (overall_compliance res) = ''2025-03-10T08:45:00Z''"
    "details (overall_compliance res) \<noteq> []"
    "length (details (overall_compliance res)) = max 1 (length (standards_checked (overall_compliance res)))"
    "compliant (overall_compliance res) \<longleftrightarrow> standards_checked (overall_compliance res) \<noteq> []"
    by (cases "standards_checked res"; auto simp: overall_compliance_def)+
  have 2: "\<not> compliant (overall_compliance res) \<and>
      details (overall_compliance res) = [Error ''No recognized Bitcoin protocol standards found in input'']"
    if "\<forall>(bip_id, bip_info) \<in> set (items BIP_STANDARDS). \<forall>pattern rx.
         getitem bip_info ''validation_regex'' = Inr pattern \<longrightarrow> re_compile pattern = Inr rx \<longrightarrow>
         \<not> occurs True rx x"
  proof -
    have "res = ?init"
      by (rule unmatched_scan[OF _ run]) (use that in blast)
    then show ?thesis by (simp add: overall_compliance_def)
  qed
  from ret 1 2 show ?thesis by simp
qed

theorem validate_protocol_never_raises_witness:
  "\<exists>res. validate_protocol '''' = Inr res \<and> validation_performed res \<and>
     timestamp res = ''2025-03-10T08:45:00Z'' \<and> \<not> compliant res \<and>
     details res = [Error ''No recognized Bitcoin protocol standards found in input'']"
  using validate_protocol_never_raises[of "''''"] empty_unmatched by auto

text \<open>
  C1. Whenever some detail of the returned report carries a non-empty \<open>warnings\<close>
  list, the report's \<open>warning\<close> field is the fixed advisory string
  "Protocol validation passed with warnings" and \<open>compliant\<close> is still true.
\<close>

theorem warning_policy:
  "\<exists>res. validate_protocol x = Inr res \<and>
     ((\<exists>d. Detail d \<in> set (details res) \<and> warnings d \<noteq> []) \<longrightarrow>
        warning res = Some ''Protocol validation passed with warnings'' \<and> compliant res)"
proof -
  let ?init = "\<lparr>validation_performed = True, timestamp = ''2025-03-10T08:45:00Z'',
              standards_checked = [], compliant = True, details = [], warning = None\<rparr>"
  let ?P = "\<lambda>r. compliant r \<and> length (details r) = length (standards_checked r) \<and>
     (\<forall>e \<in> set (details r). \<forall>w \<in> set (get_warnings e). w \<noteq> [])"
  obtain res where run: "for_each_standard (items BIP_STANDARDS) x ?init = Inr res"
    and ret: "validate_protocol x = Inr (overall_compliance res)"
    using validate_protocol_returns[OF refl] by blast
  have inv: "?P res"
    using run
  proof (rule for_each_standard_invariant[where P = ?P])
    show "?P ?init" by simp
  next
    fix entry :: "string \<times> string dict" and r :: results and nm descr
    assume "?P r"
    then show "?P (r\<lparr>standards_checked := standards_checked r @ [fst entry],
                details := details r @ [Detail (validation_detail_for (fst entry) nm descr x)]\<rparr>)"
      by (auto simp: warning_strings_nonempty)
  qed
  have "warning (overall_compliance res) = Some ''Protocol validation passed with warnings'' \<and>
        compliant (overall_compliance res)"
    if "Detail d \<in> set (details (overall_compliance res))" "warnings d \<noteq> []" for d
  proof -
    from that(1) have d: "Detail d \<in> set (details res)"
      by (simp add: overall_compliance_fields)
    then have "details res \<noteq> []" by auto
    then have checked: "standards_checked res \<noteq> []" using inv by auto
    from that(2) obtain w where w: "w \<in> set (warnings d)" by (cases "warnings d") auto
    then have "w \<noteq> []" using inv d by force
    then have "list_ex (\<lambda>w. w \<noteq> []) (concat (map get_warnings (details res)))"
      using d w unfolding list_ex_iff by force
    then show ?thesis using checked inv by (simp add: overall_compliance_def)
  qed
  with ret show ?thesis by blast
qed

theorem warning_policy_witness:
  "\<exists>res d. validate_protocol ''tr(KEY,{OTHER})'' = Inr res \<and> Detail d \<in> set (details res) \<and>
     warnings d \<noteq> [] \<and> warning res = Some ''Protocol validation passed with warnings'' \<and>
     compliant res"
  using warning_policy[of "''tr(KEY,{OTHER})''"] by (simp add: example_taproot)

text \<open>
  C4. Once \<open>argparse\<close> has delivered the arguments, \<open>main\<close> prints the
  serialised report and its exit status is non-zero exactly when the report's
  \<open>compliant\<close> field is false: status 1 then, status 0 otherwise. The argument
  parser and \<open>json.dumps\<close> are library code and enter as parameters.
\<close>

theorem main_exit_status:
  assumes "parse_args argv = Inr a"
  shows "\<exists>res. validate_protocol (input a) = Inr res \<and>
     fst (main parse_args json_dumps argv) = [json_dumps res] \<and>
     (snd (main parse_args json_dumps argv) \<noteq> 0 \<longleftrightarrow> \<not> compliant res) \<and>
     snd (main parse_args json_dumps argv) = (if compliant res then 0 else 1)"
proof -
  obtain res where "validate_protocol (input a) = Inr res"
    using validate_protocol_total by blast
  then show ?thesis using assms by (simp add: main_def)
qed

theorem main_exit_status_witness:
  "snd (main (\<lambda>argv. case argv of [flag, text] \<Rightarrow> if flag = ''--input'' then Inr \<lparr>input = text\<rparr> else Inl ([], 2)
                    | _ \<Rightarrow> Inl ([], 2)) (\<lambda>res. ''{}'') [''--input'', ''no markers here'']) = 1 \<and>
   snd (main (\<lambda>argv. case argv of [flag, text] \<Rightarrow> if flag = ''--input'' then Inr \<lparr>input = text\<rparr> else Inl ([], 2)
                    | _ \<Rightarrow> Inl ([], 2)) (\<lambda>res. ''{}'') [''--input'', ''tr(KEY,{OTHER})'']) = 0"
  using main_exit_status[of "\<lambda>argv. case argv of [flag, text] \<Rightarrow> if flag = ''--input'' then Inr \<lparr>input = text\<rparr> else Inl ([], 2)
                    | _ \<Rightarrow> Inl ([], 2)" "[''--input'', ''no markers here'']" "\<lparr>input = ''no markers here''\<rparr>" "\<lambda>res. ''{}''"]
    main_exit_status[of "\<lambda>argv. case argv of [flag, text] \<Rightarrow> if flag = ''--input'' then Inr \<lparr>input = text\<rparr> else Inl ([], 2)
                    | _ \<Rightarrow> Inl ([], 2)" "[''--input'', ''tr(KEY,{OTHER})'']" "\<lparr>input = ''tr(KEY,{OTHER})''\<rparr>" "\<lambda>res. ''{}''"]
  by (simp add: example_taproot example_no_markers)

text \<open>
  C5. For the input \<open>tr(KEY,{OTHER})\<close> the report lists BIP-341 among the checked
  standards, the BIP-341 detail carries the missing-SILENT_LEAF warning, the top-level
  \<open>warning\<close> is set and \<open>compliant\<close> is true.
\<close>

theorem taproot_example:
  "\<exists>res d. validate_protocol ''tr(KEY,{OTHER})'' = Inr res \<and>
     ''BIP-341'' \<in> set (standards_checked res) \<and>
     Detail d \<in> set (details res) \<and> standard d = ''BIP-341'' \<and>
     ''Missing recommended SILENT_LEAF pattern for privacy-preserving Taproot scripts''
        \<in> set (warnings d) \<and>
     warning res = Some ''Protocol validation passed with warnings'' \<and> compliant res"
  by (simp add: example_taproot)

text \<open>
  C6. Start from any interpreter state in which \<^verbatim>\<open>BIP_STANDARDS\<close> is bound to
  the registry of the source, and call \<^verbatim>\<open>validate_protocol\<close> twice with
  the same input text, the second call running in the state that the first one left. Both
  calls return a report; the two reports are different objects, the second call leaves the
  first report and the registry as they were, and the reports agree on
  \<open>standards_checked\<close> and on \<open>compliant\<close>.
\<close>

theorem repeated_calls_agree:
  assumes "global_BIP_STANDARDS s = BIP_STANDARDS"
  shows "\<exists>ref1 s1 ref2 s2.
     validate_protocol_call x s = (Inr ref1, s1) \<and>
     validate_protocol_call x s1 = (Inr ref2, s2) \<and>
     ref1 \<noteq> ref2 \<and> heap s2 ref1 = heap s1 ref1 \<and>
     global_BIP_STANDARDS s2 = global_BIP_STANDARDS s \<and>
     standards_checked (heap s2 ref1) = standards_checked (heap s2 ref2) \<and>
     compliant (heap s2 ref1) = compliant (heap s2 ref2)"
proof -
  obtain r where r: "validate_protocol x = Inr r"
    using validate_protocol_total by blast
  let ?s1 = "s\<lparr>heap := (heap s)(next_ref s := r), next_ref := Suc (next_ref s)\<rparr>"
  let ?s2 = "?s1\<lparr>heap := (heap ?s1)(next_ref ?s1 := r), next_ref := Suc (next_ref ?s1)\<rparr>"
  have 1: "validate_protocol_call x s = (Inr (next_ref s), ?s1)"
    using assms r by (rule validate_protocol_call_stores)
  have "global_BIP_STANDARDS ?s1 = BIP_STANDARDS"
    using assms by simp
  then have 2: "validate_protocol_call x ?s1 = (Inr (next_ref ?s1), ?s2)"
    using r by (rule validate_protocol_call_stores)
  have "next_ref s \<noteq> next_ref ?s1 \<and> heap ?s2 (next_ref s) = heap ?s1 (next_ref s) \<and>
     global_BIP_STANDARDS ?s2 = global_BIP_STANDARDS s \<and>
     standards_checked (heap ?s2 (next_ref s)) = standards_checked (heap ?s2 (next_ref ?s1)) \<and>
     compliant (heap ?s2 (next_ref s)) = compliant (heap ?s2 (next_ref ?s1))"
    by simp
  with 1 2 show ?thesis by blast
qed

theorem repeated_calls_agree_witness:
  "\<exists>s1 s2.
     validate_protocol_call ''tr(KEY,{OTHER})''
       \<lparr>global_BIP_STANDARDS = BIP_STANDARDS,
        heap = (\<lambda>a. \<lparr>validation_performed = False, timestamp = [], standards_checked = [],
                      compliant = False, details = [], warning = None\<rparr>),
        next_ref = 0\<rparr> = (Inr 0, s1) \<and>
     validate_protocol_call ''tr(KEY,{OTHER})'' s1 = (Inr 1, s2) \<and>
     standards_checked (heap s2 0) = [''BIP-341''] \<and> standards_checked (heap s2 1) = [''BIP-341''] \<and>
     compliant (heap s2 0) \<and> compliant (heap s2 1)"
proof -
  let ?s = "\<lparr>global_BIP_STANDARDS = BIP_STANDARDS,
        heap = (\<lambda>a. \<lparr>validation_performed = False, timestamp = [], standards_checked = [],
                      compliant = False, details = [], warning = None\<rparr>),
        next_ref = 0\<rparr>"
  have g: "global_BIP_STANDARDS ?s = BIP_STANDARDS" by simp
  from repeated_calls_agree[OF g, of "''tr(KEY,{OTHER})''"]
  obtain ref1 s1 ref2 s2 where c1: "validate_protocol_call ''tr(KEY,{OTHER})'' ?s = (Inr ref1, s1)"
    and c2: "validate_protocol_call ''tr(KEY,{OTHER})'' s1 = (Inr ref2, s2)"
    and keep: "heap s2 ref1 = heap s1 ref1"
    and same: "standards_checked (heap s2 ref1) = standards_checked (heap s2 ref2)"
      "compliant (heap s2 ref1) = compliant (heap s2 ref2)"
    by blast
  from c1 have first: "ref1 = 0" "next_ref s1 = 1" "global_BIP_STANDARDS s1 = BIP_STANDARDS"
    "standards_checked (heap s1 0) = [''BIP-341'']" "compliant (heap s1 0)"
    unfolding validate_protocol_call_stores[OF g example_taproot] by auto
  from c2 have "ref2 = 1"
    unfolding validate_protocol_call_stores[OF first(3) example_taproot] using first(2) by simp
  then show ?thesis
    using c1 c2 keep same first by auto
qed



text \<open>
  C3. Take any registered standard and any text \<open>v'\<close> that its detection pattern
  matches. If the input contains \<open>v'\<close> or any re-casing \<open>v\<close> of it as a
  substring, the standard's id occurs exactly once in \<open>standards_checked\<close>.
\<close>

theorem matched_standard_listed_once:
  assumes "(bip_id, bip_info) \<in> set (items BIP_STANDARDS)"
    and "getitem bip_info ''validation_regex'' = Inr pattern"
    and "re_compile pattern = Inr rx"
    and "fullmatch False rx v'"
    and "case_variant v v'"
  shows "\<exists>res. validate_protocol (u @ v @ w) = Inr res \<and>
     count_list (standards_checked res) bip_id = 1"
proof -
  let ?x = "u @ v @ w"
  let ?init = "\<lparr>validation_performed = True, timestamp = ''2025-03-10T08:45:00Z'',
              standards_checked = [], compliant = True, details = [], warning = None\<rparr>"
  have "fullmatch True rx v"
    using assms(4,5) registry_case_closed[OF assms(1-3)] by (rule fullmatch_case_variant)
  then have "occurs True rx ?x"
    unfolding occurs_def by blast
  then have applicable: "is_applicable bip_info ?x = Inr True"
    using is_applicable_occurs[OF assms(2,3)] by simp
  obtain res where run: "for_each_standard (items BIP_STANDARDS) ?x ?init = Inr res"
    and ret: "validate_protocol ?x = Inr (overall_compliance res)"
    using validate_protocol_returns[OF refl] by blast
  have "standards_checked res =
      map fst (filter (\<lambda>entry. is_applicable (snd entry) ?x = Inr True) (items BIP_STANDARDS))"
    using for_each_standard_checked[OF run] by simp
  then have "count_list (standards_checked res) bip_id = 1"
    using count_list_filtered_keys[OF registry_keys_distinct assms(1),
        of "\<lambda>entry. is_applicable (snd entry) ?x = Inr True"] applicable
    by simp
  then show ?thesis using ret by (simp add: overall_compliance_fields)
qed

theorem matched_standard_listed_once_witness:
  "\<exists>res. validate_protocol ''x PSBT:0A y'' = Inr res \<and>
     count_list (standards_checked res) ''BIP-174'' = 1"
proof -
  let ?info = "[(''name'', ''PSBT''), (''validation_regex'', ''psbt:[0-9a-f]+''),
               (''description'', ''Partially Signed Bitcoin Transaction'')]"
  let ?rx = "[map (\<lambda>c. One (Literal c)) ''psbt:'' @
        [MaxRepeat (In False [RANGE CHR ''0'' CHR ''9'', RANGE CHR ''a'' CHR ''f''])]]"
  have 1: "(''BIP-174'', ?info) \<in> set (items BIP_STANDARDS)"
    by (simp add: items_def BIP_STANDARDS_def)
  have 2: "getitem ?info ''validation_regex'' = Inr ''psbt:[0-9a-f]+''"
    by (simp add: getitem_def)
  have 3: "re_compile ''psbt:[0-9a-f]+'' = Inr ?rx"
    by (rule compile_bip174)
  have 4: "fullmatch False ?rx ''psbt:0a''"
    by (simp add: fullmatch_eval ord_def)
  have 5: "case_variant ''PSBT:0A'' ''psbt:0a''"
    by (simp add: case_variant_def same_letter_def char_eval)
  show ?thesis
    using matched_standard_listed_once[OF 1 2 3 4 5, of "''x ''" "'' y''"] by simp
qed

text \<open>
  C10. The two heuristics treat letter case differently. A BIP-341 detail carries the
  missing-SILENT_LEAF warning exactly when the upper-case text \<open>SILENT_LEAF\<close> is not
  a substring of the input, whatever other casing of it is present. A BIP-174 detail has no
  warning exactly when the input contains \<open>unsigned_tx\<close> in some letter case.
\<close>

theorem case_asymmetry:
  "\<exists>res. validate_protocol x = Inr res \<and>
     (\<forall>d. Detail d \<in> set (details res) \<longrightarrow>
        (standard d = ''BIP-341'' \<longrightarrow>
           (warnings d =
              [''Missing recommended SILENT_LEAF pattern for privacy-preserving Taproot scripts'']
            \<longleftrightarrow> \<not> (\<exists>u w. x = u @ ''SILENT_LEAF'' @ w))) \<and>
        (standard d = ''BIP-174'' \<longrightarrow>
           (warnings d = [] \<longleftrightarrow> (\<exists>u v w. x = u @ v @ w \<and> case_variant v ''unsigned_tx''))))"
proof -
  let ?init = "\<lparr>validation_performed = True, timestamp = ''2025-03-10T08:45:00Z'',
              standards_checked = [], compliant = True, details = [], warning = None\<rparr>"
  let ?Q = "\<lambda>d. (standard d = ''BIP-341'' \<longrightarrow>
           (warnings d =
              [''Missing recommended SILENT_LEAF pattern for privacy-preserving Taproot scripts'']
            \<longleftrightarrow> \<not> (\<exists>u w. x = u @ ''SILENT_LEAF'' @ w))) \<and>
        (standard d = ''BIP-174'' \<longrightarrow>
           (warnings d = [] \<longleftrightarrow> (\<exists>u v w. x = u @ v @ w \<and> case_variant v ''unsigned_tx'')))"
  let ?P = "\<lambda>r. \<forall>d. Detail d \<in> set (details r) \<longrightarrow> ?Q d"
  obtain res where run: "for_each_standard (items BIP_STANDARDS) x ?init = Inr res"
    and ret: "validate_protocol x = Inr (overall_compliance res)"
    using validate_protocol_returns[OF refl] by blast
  have "?P res"
    using run
  proof (rule for_each_standard_invariant[where P = ?P])
    show "?P ?init" by simp
  next
    fix entry :: "string \<times> string dict" and r :: results and nm descr
    assume r: "?P r"
    let ?new = "validation_detail_for (fst entry) nm descr x"
    have std: "standard ?new = fst entry"
      by (rule validation_detail_for_fields)
    have new: "?Q ?new"
    proof (intro conjI impI)
      assume "standard ?new = ''BIP-341''"
      then have "fst entry = ''BIP-341''" using std by simp
      then show "warnings ?new =
              [''Missing recommended SILENT_LEAF pattern for privacy-preserving Taproot scripts'']
            \<longleftrightarrow> \<not> (\<exists>u w. x = u @ ''SILENT_LEAF'' @ w)"
        by (simp only: bip341_warning_iff)
    next
      assume "standard ?new = ''BIP-174''"
      then have "fst entry = ''BIP-174''" using std by simp
      then show "warnings ?new = [] \<longleftrightarrow>
          (\<exists>u v w. x = u @ v @ w \<and> case_variant v ''unsigned_tx'')"
        by (simp only: bip174_warning_iff)
    qed
    show "?P (r\<lparr>standards_checked := standards_checked r @ [fst entry],
                details := details r @ [Detail ?new]\<rparr>)"
    proof (intro allI impI)
      fix d
      assume "Detail d \<in> set (details (r\<lparr>standards_checked := standards_checked r @ [fst entry],
                details := details r @ [Detail ?new]\<rparr>))"
      then have "Detail d \<in> set (details r) \<or> d = ?new" by auto
      then show "?Q d" using r new by blast
    qed
  qed
  then have "?P (overall_compliance res)"
    by (simp only: overall_compliance_fields)
  with ret show ?thesis by blast
qed

theorem case_asymmetry_witness:
  "\<exists>res d1 d2. validate_protocol ''tr(a,{silent_leaf}) psbt:0 Unsigned_TX'' = Inr res \<and>
     ''tr(a,{silent_leaf}) psbt:0 Unsigned_TX'' = ''tr(a,{'' @ ''silent_leaf'' @ ''}) psbt:0 Unsigned_TX'' \<and>
     case_variant ''silent_leaf'' ''SILENT_LEAF'' \<and>
     Detail d1 \<in> set (details res) \<and> standard d1 = ''BIP-341'' \<and>
     warnings d1 =
       [''Missing recommended SILENT_LEAF pattern for privacy-preserving Taproot scripts''] \<and>
     Detail d2 \<in> set (details res) \<and> standard d2 = ''BIP-174'' \<and> warnings d2 = []"
proof -
  let ?x = "''tr(a,{silent_leaf}) psbt:0 Unsigned_TX''"
  let ?d1 = "\<lparr>standard = ''BIP-341'', name = ''Taproot'', validation_detail.compliant = True,
        description = ''Taproot output spending conditions'',
        warnings = [''Missing recommended SILENT_LEAF pattern for privacy-preserving Taproot scripts'']\<rparr>"
  let ?d2 = "\<lparr>standard = ''BIP-174'', name = ''PSBT'', validation_detail.compliant = True,
        description = ''Partially Signed Bitcoin Transaction'', warnings = []\<rparr>"
  from case_asymmetry[of ?x] obtain res where ret: "validate_protocol ?x = Inr res"
    and rule: "\<And>d. Detail d \<in> set (details res) \<Longrightarrow>
        (standard d = ''BIP-341'' \<longrightarrow>
           (warnings d =
              [''Missing recommended SILENT_LEAF pattern for privacy-preserving Taproot scripts'']
            \<longleftrightarrow> \<not> (\<exists>u w. ?x = u @ ''SILENT_LEAF'' @ w))) \<and>
        (standard d = ''BIP-174'' \<longrightarrow>
           (warnings d = [] \<longleftrightarrow> (\<exists>u v w. ?x = u @ v @ w \<and> case_variant v ''unsigned_tx'')))"
    by blast
  from ret have d1: "Detail ?d1 \<in> set (details res)" and d2: "Detail ?d2 \<in> set (details res)"
    unfolding example_mixed_case by auto
  have absent: "\<not> (\<exists>u w. ?x = u @ ''SILENT_LEAF'' @ w)"
    unfolding contains_iff[symmetric] by simp
  have present: "\<exists>u v w. ?x = u @ v @ w \<and> case_variant v ''unsigned_tx''"
    unfolding contains_lower_unsigned_tx[symmetric] by (simp add: lower_def char_eval)
  have w1: "warnings ?d1 =
      [''Missing recommended SILENT_LEAF pattern for privacy-preserving Taproot scripts'']"
    using rule[OF d1] absent by simp
  have w2: "warnings ?d2 = []"
    using rule[OF d2] present by simp
  have cv: "case_variant ''silent_leaf'' ''SILENT_LEAF''"
    by (simp add: case_variant_def same_letter_def char_eval)
  have "validate_protocol ?x = Inr res \<and>
     ?x = ''tr(a,{'' @ ''silent_leaf'' @ ''}) psbt:0 Unsigned_TX'' \<and>
     case_variant ''silent_leaf'' ''SILENT_LEAF'' \<and>
     Detail ?d1 \<in> set (details res) \<and> standard ?d1 = ''BIP-341'' \<and>
     warnings ?d1 =
       [''Missing recommended SILENT_LEAF pattern for privacy-preserving Taproot scripts''] \<and>
     Detail ?d2 \<in> set (details res) \<and> standard ?d2 = ''BIP-174'' \<and> warnings ?d2 = []"
    using ret d1 d2 w1 w2 cv by simp
  then show ?thesis by blast
qed

end
